theory Spec2Isabelle
  imports Main "HOL-Library.Word" "HOL-Library.Sublist"
begin

unbundle bit_operations_syntax

section \<open>Data model of the Rotary class\<close>

text \<open>
  The integer types of the source on the Arduino targets the library is written for:
  \<open>unsigned char\<close> is 8 bits, \<open>short\<close> is 16 bits (signed), \<open>unsigned long\<close>
  (the type of \<open>millis()\<close> and of \<open>buttonTimer\<close>) is 32 bits.
\<close>

type_synonym uchar = "8 word"
type_synonym short = "16 word"
type_synonym ulong = "32 word"

text \<open>rotary.h: the values returned by \<open>process\<close>.\<close>

definition DIR_NONE :: uchar where [simp]: "DIR_NONE = 0x0"
definition DIR_CW :: uchar where [simp]: "DIR_CW = 0x10"
definition DIR_CCW :: uchar where [simp]: "DIR_CCW = 0x20"

text \<open>rotary.h: the button flags, constant members of the class.\<close>

definition BUTTON_RESET :: uchar where [simp]: "BUTTON_RESET = 0x00"
definition BUTTON_PRESSED :: uchar where [simp]: "BUTTON_PRESSED = 0x01"
definition BUTTON_RELEASED :: uchar where [simp]: "BUTTON_RELEASED = 0x10"
definition BUTTON_PRESSED_RELEASED :: uchar where [simp]: "BUTTON_PRESSED_RELEASED = 0x11"

text \<open>rotary.h: the private fields of the class.\<close>

record Rotary =
  state :: uchar
  pin1 :: uchar
  pin2 :: uchar
  buttonPin :: uchar
  buttonState :: uchar
  buttonTimer :: ulong

section \<open>The transition tables\<close>

text \<open>
  rotary.cpp selects one of two tables with the preprocessor symbol \<open>HALF_STEP\<close>
  (rotary.h defines it, so the half-step table is the one compiled as shipped). The
  build-time choice is a parameter of the model. State names that stand for different
  numbers in the two branches carry the branch as a suffix.
\<close>

datatype step_mode = HalfStep | FullStep

definition R_START :: uchar where [simp]: "R_START = 0x0"

text \<open>Branch \<open>#ifdef HALF_STEP\<close>.\<close>

definition R_CCW_BEGIN_h :: uchar where [simp]: "R_CCW_BEGIN_h = 0x1"
definition R_CW_BEGIN_h :: uchar where [simp]: "R_CW_BEGIN_h = 0x2"
definition R_START_M :: uchar where [simp]: "R_START_M = 0x3"
definition R_CW_BEGIN_M :: uchar where [simp]: "R_CW_BEGIN_M = 0x4"
definition R_CCW_BEGIN_M :: uchar where [simp]: "R_CCW_BEGIN_M = 0x5"

definition ttable_half :: "uchar list list" where
  "ttable_half = [
    \<comment> \<open>R_START (00)\<close>
    [R_START,             R_CCW_BEGIN_h, R_CW_BEGIN_h,  R_START_M],
    \<comment> \<open>R_CCW_BEGIN\<close>
    [R_START,             R_CCW_BEGIN_h, R_START,       R_START_M OR DIR_CCW],
    \<comment> \<open>R_CW_BEGIN\<close>
    [R_START,             R_START,       R_CW_BEGIN_h,  R_START_M OR DIR_CW],
    \<comment> \<open>R_START_M (11)\<close>
    [R_START,             R_CW_BEGIN_M,  R_CCW_BEGIN_M, R_START_M],
    \<comment> \<open>R_CW_BEGIN_M\<close>
    [R_START OR DIR_CW,   R_CW_BEGIN_M,  R_START_M,     R_START_M],
    \<comment> \<open>R_CCW_BEGIN_M\<close>
    [R_START OR DIR_CCW,  R_START_M,     R_CCW_BEGIN_M, R_START_M]]"

text \<open>Branch \<open>#else\<close>.\<close>

definition R_CW_FINAL :: uchar where [simp]: "R_CW_FINAL = 0x1"
definition R_CW_BEGIN_f :: uchar where [simp]: "R_CW_BEGIN_f = 0x2"
definition R_CW_NEXT :: uchar where [simp]: "R_CW_NEXT = 0x3"
definition R_CCW_BEGIN_f :: uchar where [simp]: "R_CCW_BEGIN_f = 0x4"
definition R_CCW_FINAL :: uchar where [simp]: "R_CCW_FINAL = 0x5"
definition R_CCW_NEXT :: uchar where [simp]: "R_CCW_NEXT = 0x6"

definition ttable_full :: "uchar list list" where
  "ttable_full = [
    \<comment> \<open>R_START\<close>
    [R_START,             R_CCW_BEGIN_f, R_CW_BEGIN_f,  R_START],
    \<comment> \<open>R_CW_FINAL\<close>
    [R_START OR DIR_CW,   R_CW_FINAL,    R_START,       R_CW_NEXT],
    \<comment> \<open>R_CW_BEGIN\<close>
    [R_START,             R_START,       R_CW_BEGIN_f,  R_CW_NEXT],
    \<comment> \<open>R_CW_NEXT\<close>
    [R_START,             R_CW_FINAL,    R_CW_BEGIN_f,  R_CW_NEXT],
    \<comment> \<open>R_CCW_BEGIN\<close>
    [R_START,             R_CCW_BEGIN_f, R_START,       R_CCW_NEXT],
    \<comment> \<open>R_CCW_FINAL\<close>
    [R_START OR DIR_CCW,  R_START,       R_CCW_FINAL,   R_CCW_NEXT],
    \<comment> \<open>R_CCW_NEXT\<close>
    [R_START,             R_CCW_BEGIN_f, R_CCW_FINAL,   R_CCW_NEXT]]"

fun ttable :: "step_mode \<Rightarrow> uchar list list" where
  "ttable HalfStep = ttable_half"
| "ttable FullStep = ttable_full"

text \<open>
  The C expression \<open>ttable[i][j]\<close>. An index outside the array is undefined behaviour
  in the source; here it is the value \<open>None\<close>.
\<close>

definition ttable_at :: "uchar list list \<Rightarrow> nat \<Rightarrow> nat \<Rightarrow> uchar option" where
  "ttable_at t i j =
     (if i < length t then (if j < length (t ! i) then Some (t ! i ! j) else None)
      else None)"

section \<open>The decoder\<close>

text \<open>
  \<open>Rotary::init\<close>: stores the two pins and sets the neutral state. The calls to
  \<open>pinMode\<close> and \<open>digitalWrite\<close> configure the hardware and leave the object alone.
\<close>

definition init :: "uchar \<Rightarrow> uchar \<Rightarrow> Rotary \<Rightarrow> Rotary" where
  "init p1 p2 r = r\<lparr>pin1 := p1, pin2 := p2, state := R_START\<rparr>"

text \<open>
  The two constructors. \<open>r\<close> is the object's memory before construction: the
  constructors assign neither \<open>buttonState\<close> nor, in the two-argument case,
  \<open>buttonPin\<close> and \<open>buttonTimer\<close>, so these fields keep what \<open>r\<close> holds.
\<close>

definition Rotary_2 :: "uchar \<Rightarrow> uchar \<Rightarrow> Rotary \<Rightarrow> Rotary" where
  "Rotary_2 p1 p2 r = init p1 p2 r"

definition Rotary_3 :: "uchar \<Rightarrow> uchar \<Rightarrow> uchar \<Rightarrow> Rotary \<Rightarrow> Rotary" where
  "Rotary_3 p1 p2 bp r = init p1 p2 (r\<lparr>buttonTimer := 0, buttonPin := bp\<rparr>)"

text \<open>
  The first statement of \<open>Rotary::process\<close>:
  \<open>(digitalRead(pin2) << 1) | digitalRead(pin1)\<close>. The two levels read from the
  hardware are inputs of the model (\<open>True\<close> is HIGH); a sample is the pair
  (level of pin2, level of pin1), so the sample written 10 is \<open>(True, False)\<close>.
\<close>

type_synonym sample = "bool \<times> bool"

definition pinstate :: "sample \<Rightarrow> uchar" where
  "pinstate x = push_bit 1 (of_bool (fst x)) OR of_bool (snd x)"

text \<open>
  \<open>Rotary::process\<close>: the table lookup, the store into \<open>state\<close> and the returned
  emit bits. The result is the returned value and the object after the call.
\<close>

definition process :: "step_mode \<Rightarrow> sample \<Rightarrow> Rotary \<Rightarrow> (uchar \<times> Rotary) option" where
  "process m x r =
     (case ttable_at (ttable m) (unat (state r AND 0xf)) (unat (pinstate x)) of
        None \<Rightarrow> None
      | Some s \<Rightarrow> Some (s AND 0x30, r\<lparr>state := s\<rparr>))"

definition clockwise :: uchar where
  "clockwise = DIR_CW"

definition counterClockwise :: uchar where
  "counterClockwise = DIR_CCW"

text \<open>
  A run of successive calls of \<open>process\<close>, one per sample: the returned value and the
  object after each call, in order. \<open>final r tr\<close> is the object after the run.
\<close>

fun run :: "step_mode \<Rightarrow> sample list \<Rightarrow> Rotary \<Rightarrow> (uchar \<times> Rotary) list option" where
  "run m [] r = Some []"
| "run m (x # xs) r =
     (case process m x r of
        None \<Rightarrow> None
      | Some (d, r') \<Rightarrow>
          (case run m xs r' of None \<Rightarrow> None | Some tr \<Rightarrow> Some ((d, r') # tr)))"

definition final :: "Rotary \<Rightarrow> (uchar \<times> Rotary) list \<Rightarrow> Rotary" where
  "final r tr = last (r # map snd tr)"

section \<open>The button\<close>

text \<open>
  The test \<open>millis() - buttonTimer > delay\<close> that both button routines make. The
  subtraction is on \<open>unsigned long\<close>; the \<open>short\<close> argument is converted to
  \<open>unsigned long\<close> for the comparison, which sign-extends it.
\<close>

definition timer_expired :: "ulong \<Rightarrow> ulong \<Rightarrow> short \<Rightarrow> bool" where
  "timer_expired now timer delay = (scast delay < now - timer)"

text \<open>
  \<open>Rotary::buttonPressedReleased\<close>. The inputs \<open>now\<close> and \<open>level\<close> are what
  \<open>millis()\<close> and \<open>digitalRead(buttonPin)\<close> give during the call (\<open>True\<close> is HIGH,
  the open line).
\<close>

definition buttonPressedReleased :: "short \<Rightarrow> ulong \<Rightarrow> bool \<Rightarrow> Rotary \<Rightarrow> bool \<times> Rotary" where
  "buttonPressedReleased debounce_delay now level r =
     (let r1 =
        (if buttonState r = BUTTON_PRESSED then
           (if timer_expired now (buttonTimer r) debounce_delay then
              (if level then r\<lparr>buttonState := buttonState r OR BUTTON_RELEASED\<rparr> else r)
            else r)
         else
           (if \<not> level then
              r\<lparr>buttonState := buttonState r OR BUTTON_PRESSED, buttonTimer := now\<rparr>
            else r))
      in if buttonState r1 = (BUTTON_PRESSED OR BUTTON_RELEASED)
         then (True, r1\<lparr>buttonState := 0x00\<rparr>)
         else (False, r1))"

text \<open>\<open>Rotary::buttonPressedHeld\<close>, with the same two inputs.\<close>

definition buttonPressedHeld :: "short \<Rightarrow> ulong \<Rightarrow> bool \<Rightarrow> Rotary \<Rightarrow> bool \<times> Rotary" where
  "buttonPressedHeld delay_millis now level r =
     (if \<not> level then
        (if buttonState r \<noteq> BUTTON_PRESSED then
           (False, r\<lparr>buttonState := BUTTON_PRESSED, buttonTimer := now\<rparr>)
         else
           (if timer_expired now (buttonTimer r) delay_millis then
              (True, r\<lparr>buttonState := BUTTON_RESET\<rparr>)
            else (False, r)))
      else
        (if buttonState r = BUTTON_PRESSED then
           (False, r\<lparr>buttonState := BUTTON_RESET\<rparr>)
         else (False, r)))"

text \<open>\<open>Rotary::readButton\<close>: the returned flag and the object after the call.\<close>

definition readButton :: "bool \<Rightarrow> Rotary \<Rightarrow> uchar \<times> Rotary" where
  "readButton level r = (if level then (BUTTON_RELEASED, r) else (BUTTON_PRESSED, r))"

text \<open>\<open>Rotary::resetButton\<close>.\<close>

definition resetButton :: "Rotary \<Rightarrow> Rotary" where
  "resetButton r = r\<lparr>buttonState := BUTTON_RESET\<rparr>"

text \<open>
  Successive calls of one button routine, one per tick; a tick is the clock value and the
  line level the call sees. The result is the list of returned values and the object
  after the last call.
\<close>

type_synonym tick = "ulong \<times> bool"

fun calls :: "(ulong \<Rightarrow> bool \<Rightarrow> Rotary \<Rightarrow> bool \<times> Rotary) \<Rightarrow> tick list \<Rightarrow> Rotary
    \<Rightarrow> bool list \<times> Rotary" where
  "calls f [] r = ([], r)"
| "calls f (t # ts) r =
     (let (b, r') = f (fst t) (snd t) r; (bs, r'') = calls f ts r' in (b # bs, r''))"

text \<open>
  Calls made once per millisecond: the clock a call sees is one more than the clock of the
  call before it (on \<open>unsigned long\<close>, so it wraps around), and the levels are given.
\<close>

fun ms_ticks :: "ulong \<Rightarrow> bool list \<Rightarrow> tick list" where
  "ms_ticks t [] = []"
| "ms_ticks t (l # ls) = (t, l) # ms_ticks (t + 1) ls"

section \<open>Reachable objects\<close>

text \<open>
  The objects a program can hold: what \<open>init\<close> leaves (both constructors end with it)
  and what the public member functions make of a reachable object.
\<close>

inductive reachable :: "step_mode \<Rightarrow> Rotary \<Rightarrow> bool" for m :: step_mode where
  reach_init: "reachable m (init p1 p2 r)"
| reach_process: "reachable m r \<Longrightarrow> process m x r = Some (d, r') \<Longrightarrow> reachable m r'"
| reach_buttonPressedReleased:
    "reachable m r \<Longrightarrow> reachable m (snd (buttonPressedReleased dl now level r))"
| reach_buttonPressedHeld:
    "reachable m r \<Longrightarrow> reachable m (snd (buttonPressedHeld dl now level r))"
| reach_readButton: "reachable m r \<Longrightarrow> reachable m (snd (readButton level r))"
| reach_resetButton: "reachable m r \<Longrightarrow> reachable m (resetButton r)"

text \<open>The values \<open>state\<close> is ever assigned: the initial one and the table's entries.\<close>

definition entries :: "step_mode \<Rightarrow> uchar list" where
  "entries m = R_START # concat (ttable m)"

section \<open>Vocabulary for the properties of the state machine\<close>

text \<open>
  The states in which the machine rests between steps: \<open>R_START\<close>, and in half-step
  mode also \<open>R_START_M\<close> (that table emits a code at 00 and at 11), whatever direction
  flag is stored with them. The other states are the intermediate ones.
\<close>

definition settled :: "step_mode \<Rightarrow> uchar \<Rightarrow> bool" where
  "settled m s =
     (case m of
        HalfStep \<Rightarrow> s AND 0xf = R_START \<or> s AND 0xf = R_START_M
      | FullStep \<Rightarrow> s AND 0xf = R_START)"

text \<open>Two samples that differ in both lines: the code between them was skipped.\<close>

definition skips :: "sample \<Rightarrow> sample \<Rightarrow> bool" where
  "skips x y = (fst x \<noteq> fst y \<and> snd x \<noteq> snd y)"

text \<open>
  The canonical sequences, read off the state names and the header comment of
  rotary.cpp: the settled state a step starts from, the intermediate states it passes in
  order, and the entry stored when it completes (a settled state with its direction flag).
\<close>

fun sequences :: "step_mode \<Rightarrow> (uchar \<times> uchar list \<times> uchar) list" where
  "sequences HalfStep =
     [(R_START, [R_CW_BEGIN_h], R_START_M OR DIR_CW),
      (R_START, [R_CCW_BEGIN_h], R_START_M OR DIR_CCW),
      (R_START_M, [R_CW_BEGIN_M], R_START OR DIR_CW),
      (R_START_M, [R_CCW_BEGIN_M], R_START OR DIR_CCW)]"
| "sequences FullStep =
     [(R_START, [R_CW_BEGIN_f, R_CW_NEXT, R_CW_FINAL], R_START OR DIR_CW),
      (R_START, [R_CCW_BEGIN_f, R_CCW_NEXT, R_CCW_FINAL], R_START OR DIR_CCW)]"

text \<open>
  \<open>visited_since m r0 xs origin seg\<close>: at some point of the run of \<open>xs\<close> from \<open>r0\<close>
  the machine was in the state \<open>origin\<close> (low nibble), and the states stored by the
  calls made since then are \<open>seg\<close>, in order.
\<close>

definition visited_since ::
    "step_mode \<Rightarrow> Rotary \<Rightarrow> sample list \<Rightarrow> uchar \<Rightarrow> uchar list \<Rightarrow> bool" where
  "visited_since m r0 xs origin seg =
     (\<exists>pre mid tp tm. xs = pre @ mid \<and> run m pre r0 = Some tp
        \<and> state (final r0 tp) AND 0xf = origin
        \<and> run m mid (final r0 tp) = Some tm \<and> seg = map (state \<circ> snd) tm)"

subsection \<open>Checks over all transitions\<close>

text \<open>
  The facts about single transitions are decided by evaluating a check on every entry
  and every sample. \<open>next_state\<close> is the lookup of \<open>process\<close> on a state byte.
\<close>

definition all_samples :: "sample list" where
  "all_samples = [(False, False), (False, True), (True, False), (True, True)]"

definition next_state :: "step_mode \<Rightarrow> uchar \<Rightarrow> sample \<Rightarrow> uchar option" where
  "next_state m s x = ttable_at (ttable m) (unat (s AND 0xf)) (unat (pinstate x))"

text \<open>
  The code of a state: the first sample at which the table keeps the machine in it
  (00 for \<open>R_START\<close>, 11 for \<open>R_START_M\<close>, the code of the quarter position for an
  intermediate state).
\<close>

definition code_of :: "step_mode \<Rightarrow> uchar \<Rightarrow> sample option" where
  "code_of m s = List.find (\<lambda>x. next_state m s x = Some (s AND 0xf)) all_samples"

definition all_steps :: "(step_mode \<Rightarrow> uchar \<Rightarrow> sample \<Rightarrow> bool) \<Rightarrow> step_mode \<Rightarrow> bool" where
  "all_steps P m = list_all (\<lambda>s. list_all (P m s) all_samples) (entries m)"

text \<open>
  \<open>progress_of m s\<close>, for an intermediate state \<open>s\<close>: the origin of its canonical
  sequence, the part of the sequence up to \<open>s\<close>, and the whole sequence.
\<close>

fun prefix_upto :: "uchar \<Rightarrow> uchar list \<Rightarrow> uchar list option" where
  "prefix_upto s [] = None"
| "prefix_upto s (c # cs) = (if c = s then Some [c] else map_option ((#) c) (prefix_upto s cs))"

fun progress_in :: "uchar \<Rightarrow> (uchar \<times> uchar list \<times> uchar) list
    \<Rightarrow> (uchar \<times> uchar list \<times> uchar list) option" where
  "progress_in s [] = None"
| "progress_in s ((origin, cs, e) # qs) =
     (case prefix_upto s cs of Some p \<Rightarrow> Some (origin, p, cs) | None \<Rightarrow> progress_in s qs)"

definition progress_of :: "step_mode \<Rightarrow> uchar \<Rightarrow> (uchar \<times> uchar list \<times> uchar list) option" where
  "progress_of m s = progress_in s (sequences m)"

text \<open>
  A transition from \<open>s\<close> to an intermediate state \<open>s'\<close> either starts the sequence of
  \<open>s'\<close> from its origin, or moves within that sequence to a state not further than one
  past \<open>s\<close>.
\<close>

definition enters_ok :: "step_mode \<Rightarrow> uchar \<Rightarrow> uchar \<Rightarrow> bool" where
  "enters_ok m s s' =
     (case progress_of m s' of
        None \<Rightarrow> True
      | Some (origin, req', cs) \<Rightarrow>
          (s AND 0xf = origin \<and> req' = [s'] \<and> s' \<in> set cs)
          \<or> (case progress_of m s of
               None \<Rightarrow> False
             | Some (o2, req, cs2) \<Rightarrow> o2 = origin \<and> cs2 = cs \<and> req' \<noteq> []
                 \<and> prefix (butlast req') req \<and> last req' = s' \<and> s' \<in> set cs))"

text \<open>A transition that stores a direction flag leaves the last state of a sequence.\<close>

definition emits_ok :: "step_mode \<Rightarrow> uchar \<Rightarrow> uchar \<Rightarrow> bool" where
  "emits_ok m s s' =
     (s' AND 0x30 = DIR_NONE
      \<or> list_ex (\<lambda>(origin, cs, e). e = s' \<and> progress_of m s = Some (origin, cs, cs))
           (sequences m))"

definition step_ok :: "step_mode \<Rightarrow> uchar \<Rightarrow> sample \<Rightarrow> bool" where
  "step_ok m s x =
     (case next_state m s x of
        None \<Rightarrow> False
      | Some s' \<Rightarrow> enters_ok m s s' \<and> emits_ok m s s'
          \<and> (s' AND 0x30 = DIR_NONE \<or> code_of m s' = Some x))"

text \<open>A sample, then the sample with both lines inverted.\<close>

definition skip_ok :: "step_mode \<Rightarrow> uchar \<Rightarrow> sample \<Rightarrow> bool" where
  "skip_ok m s x =
     (case next_state m s x of
        None \<Rightarrow> False
      | Some s1 \<Rightarrow>
          (case next_state m s1 (\<not> fst x, \<not> snd x) of
             None \<Rightarrow> False
           | Some s2 \<Rightarrow> s2 AND 0x30 = DIR_NONE \<and> (settled m s1 \<or> settled m s2)))"

text \<open>
  A sample that takes the machine from an intermediate state back to the state before it
  in its sequence.
\<close>

definition reversal_ok :: "step_mode \<Rightarrow> uchar \<Rightarrow> sample \<Rightarrow> bool" where
  "reversal_ok m s x =
     list_all (\<lambda>(origin, cs, e).
        list_all (\<lambda>i. \<not> (s = cs ! i \<and> code_of m ((origin # cs) ! i) = Some x)
            \<or> (case next_state m s x of
                 None \<Rightarrow> False
               | Some s' \<Rightarrow> s' AND 0x30 = DIR_NONE \<and> s' = (origin # cs) ! i))
          [0..<length cs])
       (sequences m)"

text \<open>The same sample twice.\<close>

definition repeat_ok :: "step_mode \<Rightarrow> uchar \<Rightarrow> sample \<Rightarrow> bool" where
  "repeat_ok m s x =
     (case next_state m s x of
        None \<Rightarrow> False
      | Some s1 \<Rightarrow>
          (case next_state m s1 x of
             None \<Rightarrow> False
           | Some s2 \<Rightarrow> s2 AND 0x30 = DIR_NONE
               \<and> (settled m s \<or> \<not> settled m s1 \<or> fst x = snd x \<longrightarrow> s2 = s1 AND 0xf)
               \<and> (s1 AND 0x30 = DIR_NONE \<longrightarrow> s1 AND 0xf = s1)))"

section \<open>Properties of the decoder\<close>

lemma pinstate_simps [simp]:
  "pinstate (False, False) = 0" "pinstate (False, True) = 1"
  "pinstate (True, False) = 2" "pinstate (True, True) = 3"
  by (simp_all add: pinstate_def)

lemma sample_cases:
  assumes "x = (False, False) \<Longrightarrow> P" and "x = (False, True) \<Longrightarrow> P"
    and "x = (True, False) \<Longrightarrow> P" and "x = (True, True) \<Longrightarrow> P"
  shows P
  using assms by (cases x) (metis (full_types))

lemma entries_half:
  "set (entries HalfStep) = {0x0, 0x1, 0x2, 0x3, 0x4, 0x5, 0x10, 0x20, 0x13, 0x23}"
  by (auto simp: entries_def ttable_half_def)

lemma entries_full:
  "set (entries FullStep) = {0x0, 0x1, 0x2, 0x3, 0x4, 0x5, 0x6, 0x10, 0x20}"
  by (auto simp: entries_def ttable_full_def)

lemma process_half_entries:
  assumes "state r \<in> set (entries HalfStep)"
  shows "\<exists>s. process HalfStep x r = Some (s AND 0x30, r\<lparr>state := s\<rparr>)
    \<and> s \<in> set (entries HalfStep)"
  using assms unfolding entries_half
  by (cases x rule: sample_cases) (auto simp: process_def ttable_at_def ttable_half_def)

lemma process_full_entries:
  assumes "state r \<in> set (entries FullStep)"
  shows "\<exists>s. process FullStep x r = Some (s AND 0x30, r\<lparr>state := s\<rparr>)
    \<and> s \<in> set (entries FullStep)"
  using assms unfolding entries_full
  by (cases x rule: sample_cases) (auto simp: process_def ttable_at_def ttable_full_def)

lemma process_entries:
  assumes "state r \<in> set (entries m)"
  shows "\<exists>s. process m x r = Some (s AND 0x30, r\<lparr>state := s\<rparr>) \<and> s \<in> set (entries m)"
  using assms process_half_entries process_full_entries by (cases m) blast+

lemma reachable_entries: "reachable m r \<Longrightarrow> state r \<in> set (entries m)"
proof (induction rule: reachable.induct)
  case (reach_init p1 p2 r)
  show ?case by (simp add: init_def entries_def)
next
  case (reach_process r x d r')
  from process_entries [OF reach_process.IH, of x] reach_process.hyps(2)
  show ?case by auto
next
  case (reach_buttonPressedReleased r dl now level)
  then show ?case by (simp add: buttonPressedReleased_def Let_def)
next
  case (reach_buttonPressedHeld r dl now level)
  then show ?case by (simp add: buttonPressedHeld_def)
next
  case (reach_readButton r level)
  then show ?case by (simp add: readButton_def)
next
  case (reach_resetButton r)
  then show ?case by (simp add: resetButton_def)
qed

lemma ttable_at_concat:
  assumes "ttable_at t i j = Some s"
  shows "s \<in> set (concat t)"
proof -
  from assms have i: "i < length t" and j: "j < length (t ! i)" and s: "s = t ! i ! j"
    by (auto simp: ttable_at_def split: if_splits)
  from i have "t ! i \<in> set t" by simp
  moreover from j s have "s \<in> set (t ! i)" by simp
  ultimately show ?thesis by auto
qed

lemma entries_emit: "s \<in> set (entries m) \<Longrightarrow> s AND 0x30 \<in> {DIR_NONE, DIR_CW, DIR_CCW}"
  by (cases m) (auto simp: entries_half entries_full)

lemma pinstate_less: "unat (pinstate x) < 4"
  by (cases x rule: sample_cases) simp_all

lemma ttable_rows:
  "\<forall>row \<in> set (ttable m). length row = 4
     \<and> (\<forall>e \<in> set row. unat (e AND 0xf) < length (ttable m))"
  by (cases m) (simp_all add: ttable_half_def ttable_full_def)

text \<open>
  C1. From the neutral state that \<open>init\<close> leaves, the five samples 00, 10, 11, 01, 00
  make \<open>process\<close> return, call by call: in full-step mode nothing four times and then
  one clockwise event; in half-step mode a clockwise event at sample 11 and another at
  the closing sample 00, and nothing at the other three. The mirror sequence
  00, 01, 11, 10, 00 gives the same with counter-clockwise events. No call returns an
  event of the other direction.
\<close>

theorem C1_canonical_sequences:
  "map_option (map fst)
     (run FullStep [(False, False), (True, False), (True, True), (False, True), (False, False)]
        (init p1 p2 r))
     = Some [DIR_NONE, DIR_NONE, DIR_NONE, DIR_NONE, DIR_CW]
   \<and> map_option (map fst)
     (run HalfStep [(False, False), (True, False), (True, True), (False, True), (False, False)]
        (init p1 p2 r))
     = Some [DIR_NONE, DIR_NONE, DIR_CW, DIR_NONE, DIR_CW]
   \<and> map_option (map fst)
     (run FullStep [(False, False), (False, True), (True, True), (True, False), (False, False)]
        (init p1 p2 r))
     = Some [DIR_NONE, DIR_NONE, DIR_NONE, DIR_NONE, DIR_CCW]
   \<and> map_option (map fst)
     (run HalfStep [(False, False), (False, True), (True, True), (True, False), (False, False)]
        (init p1 p2 r))
     = Some [DIR_NONE, DIR_NONE, DIR_CCW, DIR_NONE, DIR_CCW]"
  by (simp add: init_def process_def ttable_at_def ttable_half_def ttable_full_def)

text \<open>
  C5. The half-step table has 6 rows and the full-step table 7, every row has 4 entries,
  and the low nibble of the initial state and of every entry is the index of a row. The
  sample \<open>process\<close> computes is below 4. Hence for every reachable object and every
  sample both indices of the lookup \<open>ttable[state & 0xf][pinstate]\<close> are inside the
  array, and \<open>process\<close> returns.
\<close>

theorem C5_lookup_in_bounds:
  "length (ttable HalfStep) = 6 \<and> length (ttable FullStep) = 7
   \<and> unat (R_START AND 0xf) < length (ttable m)
   \<and> (\<forall>row \<in> set (ttable m). length row = 4
        \<and> (\<forall>e \<in> set row. unat (e AND 0xf) < length (ttable m)))
   \<and> unat (pinstate x) < 4
   \<and> (reachable m r \<longrightarrow>
        unat (state r AND 0xf) < length (ttable m)
        \<and> unat (pinstate x) < length (ttable m ! unat (state r AND 0xf))
        \<and> (\<exists>d r'. process m x r = Some (d, r')))"
proof -
  have len: "length (ttable HalfStep) = 6 \<and> length (ttable FullStep) = 7"
    by (simp add: ttable_half_def ttable_full_def)
  have start: "unat (R_START AND 0xf) < length (ttable m)"
    by (cases m) (simp_all add: ttable_half_def ttable_full_def)
  have reach: "unat (state r AND 0xf) < length (ttable m)
        \<and> unat (pinstate x) < length (ttable m ! unat (state r AND 0xf))
        \<and> (\<exists>d r'. process m x r = Some (d, r'))" if "reachable m r"
  proof -
    from process_entries [OF reachable_entries [OF that], of x]
    obtain s where s: "process m x r = Some (s AND 0x30, r\<lparr>state := s\<rparr>)" by blast
    then have "ttable_at (ttable m) (unat (state r AND 0xf)) (unat (pinstate x)) \<noteq> None"
      by (auto simp: process_def split: option.splits)
    then have "unat (state r AND 0xf) < length (ttable m)
        \<and> unat (pinstate x) < length (ttable m ! unat (state r AND 0xf))"
      by (auto simp: ttable_at_def split: if_splits)
    with s show ?thesis by blast
  qed
  from len start ttable_rows [of m] pinstate_less [of x] reach show ?thesis by blast
qed

theorem C5_lookup_in_bounds_witness:
  "reachable HalfStep
     (init 2 3 \<lparr>state = 7, pin1 = 0, pin2 = 0, buttonPin = 4, buttonState = 0, buttonTimer = 0\<rparr>)
   \<and> length [R_START OR DIR_CW, R_CW_BEGIN_M, R_START_M, R_START_M] = 4
   \<and> unat ((R_START OR DIR_CW) AND 0xf) < length (ttable HalfStep)
   \<and> process HalfStep (True, False)
       (init 2 3 \<lparr>state = 7, pin1 = 0, pin2 = 0, buttonPin = 4, buttonState = 0, buttonTimer = 0\<rparr>)
     = Some (DIR_NONE,
         \<lparr>state = R_CW_BEGIN_h, pin1 = 2, pin2 = 3, buttonPin = 4, buttonState = 0,
          buttonTimer = 0\<rparr>)"
  using C5_lookup_in_bounds [of HalfStep "(True, False)"
      "init 2 3 \<lparr>state = 7, pin1 = 0, pin2 = 0, buttonPin = 4, buttonState = 0, buttonTimer = 0\<rparr>"]
    reach_init [of HalfStep 2 3
      "\<lparr>state = 7, pin1 = 0, pin2 = 0, buttonPin = 4, buttonState = 0, buttonTimer = 0\<rparr>"]
  by (simp add: init_def process_def ttable_at_def ttable_half_def)

text \<open>
  C8. \<open>process\<close> returns for every reachable object, and whatever it returns is one of
  \<open>DIR_NONE\<close> (0x00), \<open>DIR_CW\<close> (0x10) and \<open>DIR_CCW\<close> (0x20): the two direction
  flags are never set together, and the value is the state just stored, masked with 0x30.
\<close>

theorem C8_returned_direction:
  "(reachable m r \<longrightarrow> (\<exists>d r'. process m x r = Some (d, r')))
   \<and> (\<forall>d r'. process m x r = Some (d, r') \<longrightarrow>
        (d = DIR_NONE \<or> d = DIR_CW \<or> d = DIR_CCW)
        \<and> \<not> (d AND DIR_CW \<noteq> 0 \<and> d AND DIR_CCW \<noteq> 0)
        \<and> d = state r' AND 0x30)"
proof -
  have tot: "\<exists>d r'. process m x r = Some (d, r')" if "reachable m r"
    using process_entries [OF reachable_entries [OF that], of x] by blast
  have val: "(d = DIR_NONE \<or> d = DIR_CW \<or> d = DIR_CCW)
        \<and> \<not> (d AND DIR_CW \<noteq> 0 \<and> d AND DIR_CCW \<noteq> 0)
        \<and> d = state r' AND 0x30" if p: "process m x r = Some (d, r')" for d r'
  proof -
    from p obtain s
      where s: "ttable_at (ttable m) (unat (state r AND 0xf)) (unat (pinstate x)) = Some s"
        and d: "d = s AND 0x30" and r': "r' = r\<lparr>state := s\<rparr>"
      by (auto simp: process_def split: option.splits)
    from ttable_at_concat [OF s] have "s \<in> set (entries m)" by (simp add: entries_def)
    from entries_emit [OF this] d have "d = DIR_NONE \<or> d = DIR_CW \<or> d = DIR_CCW" by simp
    moreover from this have "\<not> (d AND DIR_CW \<noteq> 0 \<and> d AND DIR_CCW \<noteq> 0)" by auto
    moreover from d r' have "d = state r' AND 0x30" by simp
    ultimately show ?thesis by blast
  qed
  from tot val show ?thesis by blast
qed

theorem C8_returned_direction_witness:
  "reachable HalfStep
     \<lparr>state = R_CW_BEGIN_h, pin1 = 2, pin2 = 3, buttonPin = 4, buttonState = 0, buttonTimer = 0\<rparr>
   \<and> process HalfStep (True, True)
       \<lparr>state = R_CW_BEGIN_h, pin1 = 2, pin2 = 3, buttonPin = 4, buttonState = 0, buttonTimer = 0\<rparr>
     = Some (DIR_CW,
         \<lparr>state = R_START_M OR DIR_CW, pin1 = 2, pin2 = 3, buttonPin = 4, buttonState = 0,
          buttonTimer = 0\<rparr>)
   \<and> DIR_CW = (R_START_M OR DIR_CW) AND 0x30 \<and> DIR_CW AND DIR_CCW = 0"
proof -
  have "reachable HalfStep
     \<lparr>state = R_CW_BEGIN_h, pin1 = 2, pin2 = 3, buttonPin = 4, buttonState = 0, buttonTimer = 0\<rparr>"
    using reach_process [OF reach_init, of HalfStep "(True, False)" 2 3
        "\<lparr>state = 7, pin1 = 0, pin2 = 0, buttonPin = 4, buttonState = 0, buttonTimer = 0\<rparr>"
        DIR_NONE
        "\<lparr>state = R_CW_BEGIN_h, pin1 = 2, pin2 = 3, buttonPin = 4, buttonState = 0,
          buttonTimer = 0\<rparr>"]
    by (simp add: init_def process_def ttable_at_def ttable_half_def)
  then show ?thesis
    using C8_returned_direction [of HalfStep
        "\<lparr>state = R_CW_BEGIN_h, pin1 = 2, pin2 = 3, buttonPin = 4, buttonState = 0,
          buttonTimer = 0\<rparr>" "(True, True)"]
    by (simp add: process_def ttable_at_def ttable_half_def)
qed

subsection \<open>Single transitions\<close>

lemma all_steps_step_ok: "all_steps step_ok m"
  by (cases m; hypsubst; code_simp)

lemma all_steps_skip_ok: "all_steps skip_ok m"
  by (cases m; hypsubst; code_simp)

lemma all_steps_repeat_ok: "all_steps repeat_ok m"
  by (cases m; hypsubst; code_simp)

lemma all_steps_reversal_ok: "all_steps reversal_ok m"
  by (cases m; hypsubst; code_simp)

lemma in_all_samples: "x \<in> set all_samples"
  by (cases x rule: sample_cases) (simp_all add: all_samples_def)

lemma all_stepsD: "all_steps P m \<Longrightarrow> s \<in> set (entries m) \<Longrightarrow> P m s x"
  using in_all_samples [of x] by (auto simp: all_steps_def list_all_iff)

lemma process_next_state:
  "process m x r =
     (case next_state m (state r) x of
        None \<Rightarrow> None
      | Some s \<Rightarrow> Some (s AND 0x30, r\<lparr>state := s\<rparr>))"
  by (simp add: process_def next_state_def)

lemma next_state_entries: "next_state m s x = Some s' \<Longrightarrow> s' \<in> set (entries m)"
  unfolding next_state_def entries_def by (auto dest: ttable_at_concat)

lemma process_step:
  assumes "state r \<in> set (entries m)"
  obtains s' where "process m x r = Some (s' AND 0x30, r\<lparr>state := s'\<rparr>)"
    and "s' \<in> set (entries m)" and "enters_ok m (state r) s'" and "emits_ok m (state r) s'"
    and "next_state m (state r) x = Some s'"
    and "s' AND 0x30 = DIR_NONE \<or> code_of m s' = Some x"
proof -
  from all_stepsD [OF all_steps_step_ok assms, of x]
  obtain s' where s': "next_state m (state r) x = Some s'" "enters_ok m (state r) s'"
      "emits_ok m (state r) s'" "s' AND 0x30 = DIR_NONE \<or> code_of m s' = Some x"
    by (auto simp: step_ok_def split: option.splits)
  from s'(1) have "process m x r = Some (s' AND 0x30, r\<lparr>state := s'\<rparr>)"
    by (simp add: process_next_state)
  with s' next_state_entries [OF s'(1)] that show thesis by blast
qed

lemma skips_complement: "skips x1 x \<Longrightarrow> x = (\<not> fst x1, \<not> snd x1)"
  by (cases x; cases x1) (auto simp: skips_def)

lemma init_entries: "state (init p1 p2 r) \<in> set (entries m)"
  by (simp add: init_def entries_def)

lemma progress_of_init: "progress_of m (state (init p1 p2 r)) = None"
  by (cases m) (simp_all add: init_def progress_of_def)

lemma emits_ok_sequences:
  assumes "emits_ok m s s'" "s' AND 0x30 \<noteq> DIR_NONE"
  obtains origin cs where "(origin, cs, s') \<in> set (sequences m)"
    and "progress_of m s = Some (origin, cs, cs)"
  using assms unfolding emits_ok_def list_ex_iff by auto

subsection \<open>Runs\<close>

lemma final_simps [simp]:
  "final r [] = r" "final r (tr @ [(d, r')]) = r'" "final r ((d, r') # tr) = final r' tr"
  by (simp_all add: final_def)

lemma final_append: "final r (tr @ tr') = final (final r tr) tr'"
  by (induction tr arbitrary: r) (auto simp: final_def)

lemma run_append:
  "run m (xs @ ys) r =
     (case run m xs r of
        None \<Rightarrow> None
      | Some tr \<Rightarrow>
          (case run m ys (final r tr) of None \<Rightarrow> None | Some tr' \<Rightarrow> Some (tr @ tr')))"
  by (induction xs arbitrary: r) (auto split: option.splits)

lemma run_snoc_Some:
  assumes "run m (xs @ [x]) r = Some tr'"
  obtains tr d r' where "run m xs r = Some tr" and "process m x (final r tr) = Some (d, r')"
    and "tr' = tr @ [(d, r')]"
  using assms by (auto simp: run_append split: option.splits)

lemma run_total:
  assumes "state r \<in> set (entries m)"
  shows "\<exists>tr. run m xs r = Some tr \<and> state (final r tr) \<in> set (entries m)"
  using assms
proof (induction xs arbitrary: r)
  case Nil
  then show ?case by simp
next
  case (Cons x xs)
  from Cons.prems obtain s'
    where s': "process m x r = Some (s' AND 0x30, r\<lparr>state := s'\<rparr>)" "s' \<in> set (entries m)"
    by (rule process_step)
  from Cons.IH [of "r\<lparr>state := s'\<rparr>"] s'(2)
  obtain tr where "run m xs (r\<lparr>state := s'\<rparr>) = Some tr"
    "state (final (r\<lparr>state := s'\<rparr>) tr) \<in> set (entries m)" by auto
  with s'(1) show ?case by simp
qed

lemma run_entries:
  assumes "state r \<in> set (entries m)" "run m xs r = Some tr"
  shows "state (final r tr) \<in> set (entries m)"
  using run_total [OF assms(1), of xs] assms(2) by simp

subsection \<open>The states visited since the last settled state\<close>

lemma visited_since_start:
  assumes "run m xs r0 = Some tr"
  shows "visited_since m r0 xs (state (final r0 tr) AND 0xf) []"
  unfolding visited_since_def
  using assms by (intro exI [of _ xs] exI [of _ "[]"] exI [of _ tr]) simp

lemma visited_since_step:
  assumes "visited_since m r0 xs origin seg" and "run m xs r0 = Some tr"
    and "process m x (final r0 tr) = Some (d, r')"
  shows "visited_since m r0 (xs @ [x]) origin (seg @ [state r'])"
proof -
  from assms(1) obtain pre mid tp tm where h: "xs = pre @ mid" "run m pre r0 = Some tp"
    "state (final r0 tp) AND 0xf = origin" "run m mid (final r0 tp) = Some tm"
    "seg = map (state \<circ> snd) tm"
    unfolding visited_since_def by blast
  from h(1,2,4) assms(2) have tr: "tr = tp @ tm" by (simp add: run_append)
  with assms(3) have "process m x (final (final r0 tp) tm) = Some (d, r')"
    by (simp add: final_append)
  with h(4) have "run m (mid @ [x]) (final r0 tp) = Some (tm @ [(d, r')])"
    by (simp add: run_append)
  with h show ?thesis
    unfolding visited_since_def
    by (intro exI [of _ pre] exI [of _ "mid @ [x]"] exI [of _ tp]
        exI [of _ "tm @ [(d, r')]"]) simp
qed

lemma subseq_snoc:
  assumes "req' \<noteq> []" "prefix (butlast req') req" "subseq req seg"
  shows "subseq req' (seg @ [last req'])"
proof -
  from assms(2) have "subseq (butlast req') req" by (rule prefix_imp_subseq)
  from this assms(3) have "subseq (butlast req') seg" by (rule subseq_order.order_trans)
  then have "subseq (butlast req' @ [last req']) (seg @ [last req'])"
    by (rule list_emb_append_mono) simp
  with assms(1) show ?thesis by simp
qed

text \<open>
  The invariant of a run: while the machine is in an intermediate state, it has come
  there from the origin of that state's sequence, through the states of the sequence up
  to the present one in order, and through no state outside the sequence.
\<close>

lemma history:
  assumes r0: "state r0 \<in> set (entries m)" "progress_of m (state r0) = None"
  shows "run m xs r0 = Some tr
    \<Longrightarrow> progress_of m (state (final r0 tr)) = Some (origin, req, cs)
    \<Longrightarrow> \<exists>seg. visited_since m r0 xs origin seg \<and> subseq req seg \<and> set seg \<subseteq> set cs"
proof (induction xs arbitrary: tr origin req cs rule: rev_induct)
  case Nil
  with r0(2) show ?case by simp
next
  case (snoc x xs)
  from snoc.prems(1) obtain tr0 d r' where run: "run m xs r0 = Some tr0"
    and step: "process m x (final r0 tr0) = Some (d, r')" and tr: "tr = tr0 @ [(d, r')]"
    by (rule run_snoc_Some)
  let ?s = "state (final r0 tr0)"
  from run_entries [OF r0(1) run] have "?s \<in> set (entries m)" .
  then obtain s'
    where "process m x (final r0 tr0) = Some (s' AND 0x30, (final r0 tr0)\<lparr>state := s'\<rparr>)"
      and ent: "enters_ok m ?s s'"
    by (rule process_step)
  with step have s': "state r' = s'" by auto
  from snoc.prems(2) tr s' have ch: "progress_of m s' = Some (origin, req, cs)" by simp
  from ent ch consider
    (fresh) "?s AND 0xf = origin" "req = [s']" "s' \<in> set cs"
    | (within) req0 where "progress_of m ?s = Some (origin, req0, cs)" "req \<noteq> []"
        "prefix (butlast req) req0" "last req = s'" "s' \<in> set cs"
    by (auto simp: enters_ok_def split: option.splits)
  then show ?case
  proof cases
    case fresh
    from visited_since_step [OF visited_since_start [OF run] run step] fresh(1) s'
    have "visited_since m r0 (xs @ [x]) origin [s']" by simp
    with fresh show ?thesis by (intro exI [of _ "[s']"]) simp
  next
    case within
    from snoc.IH [OF run within(1)] obtain seg where seg: "visited_since m r0 xs origin seg"
      "subseq req0 seg" "set seg \<subseteq> set cs" by blast
    from visited_since_step [OF seg(1) run step] s'
    have "visited_since m r0 (xs @ [x]) origin (seg @ [s'])" by simp
    moreover from subseq_snoc [OF within(2,3) seg(2)] within(4)
    have "subseq req (seg @ [s'])" by simp
    moreover from seg(3) within(5) have "set (seg @ [s']) \<subseteq> set cs" by simp
    ultimately show ?thesis by blast
  qed
qed

text \<open>
  What the tables guarantee about any run. Take any finite sequence \<open>xs\<close> of samples
  fed to \<open>process\<close> from the state \<open>init\<close> leaves, and one more sample \<open>x\<close>. All
  calls return.
  \<^item> If the call for \<open>x\<close> returns a direction, then \<open>x\<close> is the code of the settled
    state it stores, that state ends one of the canonical sequences, and since the machine
    was last in the settled state the sequence starts from, it has visited the
    intermediate states of the sequence in order and no other state.
  \<^item> If \<open>x\<close> differs from the sample before it in both lines, the call returns
    \<open>DIR_NONE\<close>, and when the machine was in an intermediate state it is now in a
    settled one.
  \<^item> If the machine is in an intermediate state and \<open>x\<close> is the code of the state before
    it in its sequence (a reversal), the call returns \<open>DIR_NONE\<close> and the machine is
    back in that state.
\<close>

lemma direction_only_after_sequence:
  "\<exists>tr d r2. run m xs (init p1 p2 r) = Some tr
     \<and> process m x (final (init p1 p2 r) tr) = Some (d, r2)
     \<and> (d \<noteq> DIR_NONE \<longrightarrow>
          code_of m (state r2) = Some x
          \<and> (\<exists>origin cs seg. (origin, cs, state r2) \<in> set (sequences m)
             \<and> visited_since m (init p1 p2 r) xs origin seg
             \<and> subseq cs seg \<and> set seg \<subseteq> set cs))
     \<and> (xs \<noteq> [] \<and> skips (last xs) x \<longrightarrow>
          d = DIR_NONE
          \<and> (\<not> settled m (state (final (init p1 p2 r) tr)) \<longrightarrow> settled m (state r2)))
     \<and> (\<forall>(origin, cs, e) \<in> set (sequences m). \<forall>i < length cs.
          state (final (init p1 p2 r) tr) = cs ! i \<and> code_of m ((origin # cs) ! i) = Some x
          \<longrightarrow> d = DIR_NONE \<and> state r2 = (origin # cs) ! i)"
proof -
  let ?r0 = "init p1 p2 r"
  have r0: "state ?r0 \<in> set (entries m)" by (rule init_entries)
  from run_total [OF r0, of xs] obtain tr where run: "run m xs ?r0 = Some tr"
    and ent: "state (final ?r0 tr) \<in> set (entries m)" by blast
  let ?r1 = "final ?r0 tr"
  from ent obtain s' where step: "process m x ?r1 = Some (s' AND 0x30, ?r1\<lparr>state := s'\<rparr>)"
    and em: "emits_ok m (state ?r1) s'" and l2: "next_state m (state ?r1) x = Some s'"
    and code: "s' AND 0x30 = DIR_NONE \<or> code_of m s' = Some x"
    by (rule process_step)
  let ?d = "s' AND 0x30" and ?r2 = "?r1\<lparr>state := s'\<rparr>"
  have A: "code_of m (state ?r2) = Some x
      \<and> (\<exists>origin cs seg. (origin, cs, state ?r2) \<in> set (sequences m)
             \<and> visited_since m ?r0 xs origin seg \<and> subseq cs seg \<and> set seg \<subseteq> set cs)"
    if "?d \<noteq> DIR_NONE"
  proof -
    from em that obtain origin cs where sq: "(origin, cs, s') \<in> set (sequences m)"
      and ch: "progress_of m (state ?r1) = Some (origin, cs, cs)"
      by (rule emits_ok_sequences)
    from history [OF r0 progress_of_init run ch] sq code that show ?thesis by auto
  qed
  have B: "?d = DIR_NONE \<and> (\<not> settled m (state ?r1) \<longrightarrow> settled m (state ?r2))"
    if "xs \<noteq> []" "skips (last xs) x"
  proof -
    from that(1) obtain ys x1 where xs: "xs = ys @ [x1]" by (cases xs rule: rev_cases) auto
    with run obtain tr0 d1 r1 where run0: "run m ys ?r0 = Some tr0"
      and step1: "process m x1 (final ?r0 tr0) = Some (d1, r1)" and tr: "tr = tr0 @ [(d1, r1)]"
      by (auto elim: run_snoc_Some)
    from that(2) xs have x: "x = (\<not> fst x1, \<not> snd x1)" by (simp add: skips_complement)
    from step1 obtain s1 where l1: "next_state m (state (final ?r0 tr0)) x1 = Some s1"
      and s1: "state r1 = s1"
      by (auto simp: process_next_state split: option.splits)
    from tr s1 have now: "state ?r1 = s1" by simp
    with l2 x have "next_state m s1 (\<not> fst x1, \<not> snd x1) = Some s'" by simp
    with all_stepsD [OF all_steps_skip_ok run_entries [OF r0 run0], of x1] l1 now
    show ?thesis
      by (auto simp: skip_ok_def)
  qed
  have C: "?d = DIR_NONE \<and> state ?r2 = (origin # cs) ! i"
    if "(origin, cs, e) \<in> set (sequences m)" "i < length cs" "state ?r1 = cs ! i"
      "code_of m ((origin # cs) ! i) = Some x" for origin cs e i
  proof -
    from all_stepsD [OF all_steps_reversal_ok ent, of x] that(1)
    have "list_all (\<lambda>i. \<not> (state ?r1 = cs ! i \<and> code_of m ((origin # cs) ! i) = Some x)
            \<or> (case next_state m (state ?r1) x of
                 None \<Rightarrow> False
               | Some s' \<Rightarrow> s' AND 0x30 = DIR_NONE \<and> s' = (origin # cs) ! i))
          [0..<length cs]"
      unfolding reversal_ok_def list_all_iff by fastforce
    with that(2,3,4) l2 show ?thesis
      unfolding list_all_iff by auto
  qed
  from run step A B C show ?thesis by blast
qed

text \<open>
  C2. The claim has every sample that skips a code route the machine back toward the
  neutral state, and the header comment of rotary.cpp has the machine, after an invalid
  jump, reset to the start until 0-0 and the next valid codes occur. The tables do
  otherwise. After the samples 00, 01, 10 the jump from 01 to 10 has reset the machine to
  \<open>R_START\<close> while the lines read 10. The next sample 01 skips a code again, no 00
  has been seen, and the call takes the machine out of \<open>R_START\<close> into
  \<open>R_CCW_BEGIN\<close>, an intermediate state, in both modes.
\<close>

theorem C2_jump_out_of_neutral:
  "skips (False, True) (True, False) \<and> skips (True, False) (False, True)
   \<and> map_option (map (state \<circ> snd))
       (run HalfStep [(False, False), (False, True), (True, False), (False, True)]
          (init 2 3
             \<lparr>state = 7, pin1 = 0, pin2 = 0, buttonPin = 4, buttonState = 0, buttonTimer = 0\<rparr>))
     = Some [R_START, R_CCW_BEGIN_h, R_START, R_CCW_BEGIN_h]
   \<and> settled HalfStep R_START \<and> \<not> settled HalfStep R_CCW_BEGIN_h
   \<and> map_option (map (state \<circ> snd))
       (run FullStep [(False, False), (False, True), (True, False), (False, True)]
          (init 2 3
             \<lparr>state = 7, pin1 = 0, pin2 = 0, buttonPin = 4, buttonState = 0, buttonTimer = 0\<rparr>))
     = Some [R_START, R_CCW_BEGIN_f, R_START, R_CCW_BEGIN_f]
   \<and> settled FullStep R_START \<and> \<not> settled FullStep R_CCW_BEGIN_f"
  by (simp add: skips_def settled_def init_def process_def ttable_at_def ttable_half_def
      ttable_full_def)

text \<open>
  C6, as the tables are built. From every reachable object, two successive calls of
  \<open>process\<close> with the same sample return, and the second returns \<open>DIR_NONE\<close>. The
  second call stores the state the first call stored with the direction flag cleared (so
  the low nibble is unchanged, and the whole state when the first call returned no
  direction) in each of these cases: the machine was in a settled state before the first
  call; the first call left it in an intermediate state; the sample is 00 or 11. Nothing
  is said of the second call's state in the remaining case, where the first call takes
  the machine from an intermediate state to a settled one on the sample 01 or 10: that is
  the reset after an invalid jump of C2.
\<close>

theorem C6_repeated_sample:
  assumes "reachable m r"
  shows "\<exists>d1 r1 r2. process m x r = Some (d1, r1)
     \<and> process m x r1 = Some (DIR_NONE, r2)
     \<and> (settled m (state r) \<or> \<not> settled m (state r1) \<or> fst x = snd x \<longrightarrow>
          r2 = r1\<lparr>state := state r1 AND 0xf\<rparr> \<and> (d1 = DIR_NONE \<longrightarrow> r2 = r1))"
proof -
  from all_stepsD [OF all_steps_repeat_ok reachable_entries [OF assms], of x]
  obtain s1 s2 where l1: "next_state m (state r) x = Some s1"
    and l2: "next_state m s1 x = Some s2" and none: "s2 AND 0x30 = DIR_NONE"
    and same: "settled m (state r) \<or> \<not> settled m s1 \<or> fst x = snd x \<longrightarrow> s2 = s1 AND 0xf"
    and plain: "s1 AND 0x30 = DIR_NONE \<longrightarrow> s1 AND 0xf = s1"
    by (auto simp: repeat_ok_def split: option.splits)
  let ?r1 = "r\<lparr>state := s1\<rparr>" and ?r2 = "r\<lparr>state := s2\<rparr>"
  from l1 have p1: "process m x r = Some (s1 AND 0x30, ?r1)"
    by (simp add: process_next_state)
  from l2 none have p2: "process m x ?r1 = Some (DIR_NONE, ?r2)"
    by (simp add: process_next_state)
  have "?r2 = ?r1\<lparr>state := state ?r1 AND 0xf\<rparr> \<and> (s1 AND 0x30 = DIR_NONE \<longrightarrow> ?r2 = ?r1)"
    if "settled m (state r) \<or> \<not> settled m (state ?r1) \<or> fst x = snd x"
    using that same plain by auto
  with p1 p2 show ?thesis by blast
qed

theorem C6_repeated_sample_witness:
  "reachable HalfStep
     \<lparr>state = R_CW_BEGIN_h, pin1 = 2, pin2 = 3, buttonPin = 4, buttonState = 0, buttonTimer = 0\<rparr>
   \<and> process HalfStep (True, True)
       \<lparr>state = R_CW_BEGIN_h, pin1 = 2, pin2 = 3, buttonPin = 4, buttonState = 0, buttonTimer = 0\<rparr>
     = Some (DIR_CW,
         \<lparr>state = R_START_M OR DIR_CW, pin1 = 2, pin2 = 3, buttonPin = 4, buttonState = 0,
          buttonTimer = 0\<rparr>)
   \<and> process HalfStep (True, True)
       \<lparr>state = R_START_M OR DIR_CW, pin1 = 2, pin2 = 3, buttonPin = 4, buttonState = 0,
        buttonTimer = 0\<rparr>
     = Some (DIR_NONE,
         \<lparr>state = R_START_M, pin1 = 2, pin2 = 3, buttonPin = 4, buttonState = 0,
          buttonTimer = 0\<rparr>)
   \<and> process HalfStep (True, False)
       \<lparr>state = R_CW_BEGIN_h, pin1 = 2, pin2 = 3, buttonPin = 4, buttonState = 0, buttonTimer = 0\<rparr>
     = Some (DIR_NONE,
         \<lparr>state = R_CW_BEGIN_h, pin1 = 2, pin2 = 3, buttonPin = 4, buttonState = 0,
          buttonTimer = 0\<rparr>)"
proof -
  let ?b = "\<lparr>state = R_CW_BEGIN_h, pin1 = 2, pin2 = 3, buttonPin = 4, buttonState = 0,
    buttonTimer = 0\<rparr>"
  have reach: "reachable HalfStep ?b"
    using reach_process [OF reach_init, of HalfStep "(True, False)" 2 3
        "\<lparr>state = 7, pin1 = 0, pin2 = 0, buttonPin = 4, buttonState = 0, buttonTimer = 0\<rparr>"
        DIR_NONE ?b]
    by (simp add: init_def process_def ttable_at_def ttable_half_def)
  from C6_repeated_sample [OF reach, of "(True, True)"]
    C6_repeated_sample [OF reach, of "(True, False)"] reach
  show ?thesis
    by (simp add: process_def ttable_at_def ttable_half_def settled_def)
qed

text \<open>
  C6 as the claim has it fails, in two ways. By the way the emit bits are kept: the call
  that completes a step stores the direction flag in \<open>state\<close>, and the next call with
  the same sample stores the state without it (0x13, then 0x03). And after the reset of
  an unfinished sequence: from \<open>R_CW_BEGIN\<close> the sample 01 resets the machine to
  \<open>R_START\<close>, and the same sample again takes it on to \<open>R_CCW_BEGIN\<close>.
\<close>

theorem C6_second_call_changes_state_counterexample:
  "map_option (map (state \<circ> snd))
       (run HalfStep [(True, False), (True, True), (True, True)]
          (init 2 3
             \<lparr>state = 7, pin1 = 0, pin2 = 0, buttonPin = 4, buttonState = 0, buttonTimer = 0\<rparr>))
     = Some [R_CW_BEGIN_h, R_START_M OR DIR_CW, R_START_M]
   \<and> R_START_M OR DIR_CW \<noteq> R_START_M
   \<and> map_option (map (state \<circ> snd))
       (run HalfStep [(True, False), (False, True), (False, True)]
          (init 2 3
             \<lparr>state = 7, pin1 = 0, pin2 = 0, buttonPin = 4, buttonState = 0, buttonTimer = 0\<rparr>))
     = Some [R_CW_BEGIN_h, R_START, R_CCW_BEGIN_h]
   \<and> R_START \<noteq> R_CCW_BEGIN_h"
  by (simp add: init_def process_def ttable_at_def ttable_half_def)

section \<open>Properties of the button\<close>

text \<open>
  C9. \<open>readButton\<close> returns \<open>BUTTON_PRESSED\<close> exactly when the line reads low and
  \<open>BUTTON_RELEASED\<close> exactly when it reads high, and the object after the call is the
  object before it: the decoder state, \<open>buttonState\<close> and \<open>buttonTimer\<close> keep their
  values.
\<close>

theorem C9_readButton:
  "(fst (readButton level r) = BUTTON_PRESSED \<longleftrightarrow> \<not> level)
   \<and> (fst (readButton level r) = BUTTON_RELEASED \<longleftrightarrow> level)
   \<and> snd (readButton level r) = r
   \<and> state (snd (readButton level r)) = state r
   \<and> buttonState (snd (readButton level r)) = buttonState r
   \<and> buttonTimer (snd (readButton level r)) = buttonTimer r"
  by (simp add: readButton_def)

subsection \<open>The elapsed-time test\<close>

lemma unat_scast_nonneg:
  fixes d :: short
  assumes "0 \<le> sint d"
  shows "unat (scast d :: ulong) = nat (sint d)"
proof -
  have lt: "sint d < 2 ^ 15" using sint_lt [of d] by simp
  have "(scast d :: ulong) = word_of_int (sint d)" by (rule scast_eq)
  also have "\<dots> = word_of_nat (nat (sint d))" using assms by simp
  finally have "unat (scast d :: ulong) = nat (sint d) mod 2 ^ 32"
    by (simp add: unat_of_nat)
  moreover have "nat (sint d) < 2 ^ 32" using lt assms by simp
  ultimately show ?thesis by simp
qed

lemma timer_expired_elapsed:
  fixes d :: short
  assumes "0 \<le> sint d" "e < 2 ^ 32"
  shows "timer_expired (t0 + word_of_nat e) t0 d \<longleftrightarrow> sint d < int e"
proof -
  have "unat (word_of_nat e :: ulong) = e" using assms(2) by (simp add: unat_of_nat)
  then show ?thesis
    using assms(1)
    by (simp add: timer_expired_def word_less_nat_alt unat_scast_nonneg) linarith
qed

lemma short_bound:
  fixes d :: short
  shows "nat (sint d) + 2 < 2 ^ 32"
  using sint_lt [of d] by simp

subsection \<open>Runs of calls\<close>

lemma calls_append:
  "calls f (ts @ us) r =
     (let (bs, r') = calls f ts r; (cs, r'') = calls f us r' in (bs @ cs, r''))"
  by (induction ts arbitrary: r) (simp_all add: split_def Let_def)

lemma ms_ticks_append:
  "ms_ticks t (ls @ ks) = ms_ticks t ls @ ms_ticks (t + word_of_nat (length ls)) ks"
  by (induction ls arbitrary: t) (simp_all add: add.assoc add.commute)

lemma replicate_numeral: "replicate (numeral k) x = x # replicate (pred_numeral k) x"
  by (simp add: numeral_eq_Suc)

lemma replicate_plus2: "replicate (n + 2) x = replicate (n + 1) x @ [x]"
  by (induction n) simp_all

lemma replicate_plus3: "replicate (n + 3) x = replicate (n + 1) x @ [x, x]"
  by (induction n) (simp_all add: numeral_3_eq_3)

subsection \<open>Press and release\<close>

lemma released_first:
  assumes "buttonState r = BUTTON_RESET"
  shows "buttonPressedReleased d now False r
    = (False, r\<lparr>buttonState := BUTTON_PRESSED, buttonTimer := now\<rparr>)"
  using assms by (simp add: buttonPressedReleased_def)

lemma released_closed:
  assumes "buttonState r = BUTTON_PRESSED"
  shows "calls (buttonPressedReleased d) (ms_ticks t (replicate n False)) r
    = (replicate n False, r)"
  using assms by (induction n arbitrary: t) (simp_all add: buttonPressedReleased_def)

lemma released_open_idle:
  assumes "buttonState r = BUTTON_RESET"
  shows "calls (buttonPressedReleased d) (ms_ticks t (replicate n True)) r
    = (replicate n False, r)"
  using assms by (induction n arbitrary: t) (simp_all add: buttonPressedReleased_def)

lemma released_fire:
  assumes "buttonState r = BUTTON_PRESSED" "timer_expired now (buttonTimer r) d"
  shows "buttonPressedReleased d now True r = (True, r\<lparr>buttonState := BUTTON_RESET\<rparr>)"
  using assms by (simp add: buttonPressedReleased_def)

text \<open>
  C4. \<open>buttonState\<close> is Reset, the delay is not negative, and
  \<open>buttonPressedReleased\<close> is called once per millisecond from a tick \<open>t0\<close> on, with
  the line closed at the ticks 0 to \<open>debounceDelayMs\<close> and open afterwards. Then the
  calls at the ticks 0 to \<open>debounceDelayMs\<close> return false, the call at tick
  \<open>debounceDelayMs + 1\<close> returns true and leaves \<open>buttonState\<close> at Reset, and every
  later call made while the line stays open returns false.
\<close>

theorem C4_pressed_released:
  fixes debounceDelayMs :: short
  assumes "0 \<le> sint debounceDelayMs" and "buttonState r = BUTTON_RESET"
  shows "calls (buttonPressedReleased debounceDelayMs)
           (ms_ticks t0 (replicate (nat (sint debounceDelayMs) + 1) False @ [True])) r
         = (replicate (nat (sint debounceDelayMs) + 1) False @ [True],
            r\<lparr>buttonState := BUTTON_RESET, buttonTimer := t0\<rparr>)
       \<and> calls (buttonPressedReleased debounceDelayMs)
           (ms_ticks t0
              (replicate (nat (sint debounceDelayMs) + 1) False @ True # replicate k True)) r
         = (replicate (nat (sint debounceDelayMs) + 1) False @ True # replicate k False,
            r\<lparr>buttonState := BUTTON_RESET, buttonTimer := t0\<rparr>)"
proof -
  let ?D = "nat (sint debounceDelayMs)"
  let ?f = "buttonPressedReleased debounceDelayMs"
  let ?r1 = "r\<lparr>buttonState := BUTTON_PRESSED, buttonTimer := t0\<rparr>"
  let ?r2 = "r\<lparr>buttonState := BUTTON_RESET, buttonTimer := t0\<rparr>"
  have first: "?f t0 False r = (False, ?r1)"
    using assms(2) by (rule released_first)
  have hold: "calls ?f (ms_ticks (t0 + 1) (replicate ?D False)) ?r1 = (replicate ?D False, ?r1)"
    by (rule released_closed) simp
  have closed: "calls ?f (ms_ticks t0 (replicate (?D + 1) False)) r
      = (replicate (?D + 1) False, ?r1)"
    using first hold by simp
  have "?D + 1 < 2 ^ 32" using short_bound [of debounceDelayMs] by simp
  then have "timer_expired (t0 + word_of_nat (?D + 1)) t0 debounceDelayMs"
    using assms(1) by (subst timer_expired_elapsed) simp_all
  then have fire: "?f (t0 + word_of_nat (?D + 1)) True ?r1 = (True, ?r2)"
    using released_fire [of ?r1 "t0 + word_of_nat (?D + 1)" debounceDelayMs] by simp
  have after: "calls ?f (ms_ticks t0 (replicate (?D + 1) False @ True # replicate j True)) r
      = (replicate (?D + 1) False @ True # replicate j False, ?r2)" for j
  proof -
    have idle: "calls ?f (ms_ticks (t0 + word_of_nat (?D + 1) + 1) (replicate j True)) ?r2
        = (replicate j False, ?r2)"
      by (rule released_open_idle) simp
    show ?thesis
      unfolding ms_ticks_append calls_append closed
      using fire idle by simp
  qed
  from after [of 0] after [of k] show ?thesis by simp
qed

theorem C4_pressed_released_witness:
  "calls (buttonPressedReleased 3)
     (ms_ticks 0xFFFFFFFE [False, False, False, False, True, True, True])
     \<lparr>state = 0, pin1 = 2, pin2 = 3, buttonPin = 4, buttonState = BUTTON_RESET, buttonTimer = 0\<rparr>
   = ([False, False, False, False, True, False, False],
      \<lparr>state = 0, pin1 = 2, pin2 = 3, buttonPin = 4, buttonState = BUTTON_RESET,
       buttonTimer = 0xFFFFFFFE\<rparr>)"
  using C4_pressed_released [of 3
      "\<lparr>state = 0, pin1 = 2, pin2 = 3, buttonPin = 4, buttonState = BUTTON_RESET,
        buttonTimer = 0\<rparr>" "0xFFFFFFFE" 2]
  by (simp add: replicate_numeral)

subsection \<open>Press and hold\<close>

lemma held_first:
  assumes "buttonState r \<noteq> BUTTON_PRESSED"
  shows "buttonPressedHeld d now False r
    = (False, r\<lparr>buttonState := BUTTON_PRESSED, buttonTimer := now\<rparr>)"
  using assms by (simp add: buttonPressedHeld_def)

lemma held_wait:
  assumes "buttonState r = BUTTON_PRESSED" "\<not> timer_expired now (buttonTimer r) d"
  shows "buttonPressedHeld d now False r = (False, r)"
  using assms by (simp add: buttonPressedHeld_def)

lemma held_fire:
  assumes "buttonState r = BUTTON_PRESSED" "timer_expired now (buttonTimer r) d"
  shows "buttonPressedHeld d now False r = (True, r\<lparr>buttonState := BUTTON_RESET\<rparr>)"
  using assms by (simp add: buttonPressedHeld_def)

lemma held_open:
  assumes "buttonState r = BUTTON_PRESSED"
  shows "buttonPressedHeld d now True r = (False, r\<lparr>buttonState := BUTTON_RESET\<rparr>)"
  using assms by (simp add: buttonPressedHeld_def)

lemma held_closed_ticks:
  fixes d :: short
  assumes "buttonState r = BUTTON_PRESSED" "buttonTimer r = t0" "0 \<le> sint d"
    and "e + n \<le> nat (sint d) + 1"
  shows "calls (buttonPressedHeld d) (ms_ticks (t0 + word_of_nat e) (replicate n False)) r
    = (replicate n False, r)"
  using assms(4)
proof (induction n arbitrary: e)
  case 0
  show ?case by simp
next
  case (Suc n)
  from Suc.prems have e: "e \<le> nat (sint d)" by simp
  with short_bound [of d] have "e < 2 ^ 32" by simp
  with e assms(3) have "\<not> timer_expired (t0 + word_of_nat e) t0 d"
    by (simp add: timer_expired_elapsed)
  then have now: "buttonPressedHeld d (t0 + word_of_nat e) False r = (False, r)"
    using assms(1,2) by (simp add: held_wait)
  have next_tick: "t0 + word_of_nat e + 1 = t0 + word_of_nat (Suc e)" by simp
  from Suc.prems have "Suc e + n \<le> nat (sint d) + 1" by simp
  then have "calls (buttonPressedHeld d)
      (ms_ticks (t0 + word_of_nat e + 1) (replicate n False)) r = (replicate n False, r)"
    unfolding next_tick by (rule Suc.IH)
  with now show ?case by simp
qed

text \<open>
  C3, as the code has it. \<open>buttonState\<close> is Reset, the threshold is not negative, and
  \<open>buttonPressedHeld\<close> is called once per millisecond from a tick \<open>t0\<close> on with the
  line closed throughout. The calls at the ticks 0 to \<open>holdThresholdMs\<close> return false:
  the test is \<open>elapsed > holdThresholdMs\<close>, so the call at which the elapsed time
  equals the threshold does not fire. The call at tick \<open>holdThresholdMs + 1\<close> returns
  true and leaves \<open>buttonState\<close> at Reset. If the line is still closed one tick later,
  that call returns false.
\<close>

theorem C3_pressed_held:
  fixes holdThresholdMs :: short
  assumes "0 \<le> sint holdThresholdMs" and "buttonState r = BUTTON_RESET"
  shows "calls (buttonPressedHeld holdThresholdMs)
           (ms_ticks t0 (replicate (nat (sint holdThresholdMs) + 2) False)) r
         = (replicate (nat (sint holdThresholdMs) + 1) False @ [True],
            r\<lparr>buttonState := BUTTON_RESET, buttonTimer := t0\<rparr>)
       \<and> fst (calls (buttonPressedHeld holdThresholdMs)
           (ms_ticks t0 (replicate (nat (sint holdThresholdMs) + 3) False)) r)
         = replicate (nat (sint holdThresholdMs) + 1) False @ [True, False]"
proof -
  let ?H = "nat (sint holdThresholdMs)"
  let ?f = "buttonPressedHeld holdThresholdMs"
  let ?r1 = "r\<lparr>buttonState := BUTTON_PRESSED, buttonTimer := t0\<rparr>"
  let ?r2 = "r\<lparr>buttonState := BUTTON_RESET, buttonTimer := t0\<rparr>"
  have first: "?f t0 False r = (False, ?r1)"
    using assms(2) by (simp add: held_first)
  have "calls ?f (ms_ticks (t0 + word_of_nat 1) (replicate ?H False)) ?r1
      = (replicate ?H False, ?r1)"
    using assms(1) by (intro held_closed_ticks) simp_all
  with first have closed: "calls ?f (ms_ticks t0 (replicate (?H + 1) False)) r
      = (replicate (?H + 1) False, ?r1)"
    by simp
  have "?H + 1 < 2 ^ 32" using short_bound [of holdThresholdMs] by simp
  then have "timer_expired (t0 + word_of_nat (?H + 1)) t0 holdThresholdMs"
    using assms(1) by (subst timer_expired_elapsed) simp_all
  then have fire: "?f (t0 + word_of_nat (?H + 1)) False ?r1 = (True, ?r2)"
    using held_fire [of ?r1 "t0 + word_of_nat (?H + 1)" holdThresholdMs] by simp
  have again: "?f now False ?r2
      = (False, ?r2\<lparr>buttonState := BUTTON_PRESSED, buttonTimer := now\<rparr>)" for now
    by (simp add: held_first)
  have two: "replicate (?H + 2) False = replicate (?H + 1) False @ [False]"
    by (rule replicate_plus2)
  have three: "replicate (?H + 3) False = replicate (?H + 1) False @ [False, False]"
    by (rule replicate_plus3)
  have A: "calls ?f (ms_ticks t0 (replicate (?H + 2) False)) r
      = (replicate (?H + 1) False @ [True], ?r2)"
    unfolding two ms_ticks_append calls_append closed using fire by simp
  have B: "fst (calls ?f (ms_ticks t0 (replicate (?H + 3) False)) r)
      = replicate (?H + 1) False @ [True, False]"
    unfolding three ms_ticks_append calls_append closed using fire again by simp
  from A B show ?thesis by simp
qed

theorem C3_pressed_held_witness:
  "fst (calls (buttonPressedHeld 2)
     (ms_ticks 0xFFFFFFFE [False, False, False, False, False])
     \<lparr>state = 0, pin1 = 2, pin2 = 3, buttonPin = 4, buttonState = BUTTON_RESET,
      buttonTimer = 0\<rparr>)
   = [False, False, False, True, False]"
  using C3_pressed_held [of 2
      "\<lparr>state = 0, pin1 = 2, pin2 = 3, buttonPin = 4, buttonState = BUTTON_RESET,
        buttonTimer = 0\<rparr>" "0xFFFFFFFE"]
  by (simp add: replicate_numeral)

text \<open>
  C3 as the claim has it fails. With a threshold of 2 ms and the line closed at the ticks
  0, 1, 2, 3, the elapsed time reaches the threshold at tick 2; the call there returns
  false, and the only true is returned at tick 3, the last of the scenario, where the
  claim has false.
\<close>

theorem C3_fires_after_threshold_counterexample:
  "fst (calls (buttonPressedHeld 2) (ms_ticks 0 [False, False, False, False])
     \<lparr>state = 0, pin1 = 2, pin2 = 3, buttonPin = 4, buttonState = BUTTON_RESET,
      buttonTimer = 0\<rparr>)
   = [False, False, False, True]
   \<and> fst (calls (buttonPressedHeld 2) (ms_ticks 0 [False, False, False, False])
     \<lparr>state = 0, pin1 = 2, pin2 = 3, buttonPin = 4, buttonState = BUTTON_RESET,
      buttonTimer = 0\<rparr>)
   \<noteq> [False, False, True, False]"
  by (simp add: buttonPressedHeld_def timer_expired_def)

text \<open>
  C7. A press is first observed by \<open>buttonPressedHeld\<close> at clock \<open>t0\<close>; further calls
  see the line closed at elapsed times below the threshold, and then a call sees it open.
  Every one of these calls returns false, and the call that sees the open line leaves
  \<open>buttonState\<close> at Reset.
\<close>

theorem C7_short_press:
  fixes holdThresholdMs :: short
  assumes "buttonState r \<noteq> BUTTON_PRESSED"
    and "\<forall>e \<in> set es. int e < sint holdThresholdMs"
  shows "calls (buttonPressedHeld holdThresholdMs)
           ((t0, False) # map (\<lambda>e. (t0 + word_of_nat e, False)) es @ [(t1, True)]) r
         = (replicate (length es + 2) False,
            r\<lparr>buttonState := BUTTON_RESET, buttonTimer := t0\<rparr>)"
proof -
  let ?f = "buttonPressedHeld holdThresholdMs"
  let ?r1 = "r\<lparr>buttonState := BUTTON_PRESSED, buttonTimer := t0\<rparr>"
  have first: "?f t0 False r = (False, ?r1)"
    using assms(1) by (simp add: held_first)
  have wait: "calls ?f (map (\<lambda>e. (t0 + word_of_nat e, False)) es) ?r1
      = (replicate (length es) False, ?r1)"
    using assms(2)
  proof (induction es)
    case Nil
    show ?case by simp
  next
    case (Cons e es)
    then have e: "int e < sint holdThresholdMs" by simp
    with sint_lt [of holdThresholdMs] have "e < 2 ^ 32" by simp
    with e have "\<not> timer_expired (t0 + word_of_nat e) t0 holdThresholdMs"
      by (simp add: timer_expired_elapsed)
    then have "?f (t0 + word_of_nat e) False ?r1 = (False, ?r1)"
      by (simp add: held_wait)
    with Cons show ?case by simp
  qed
  have "?f t1 True ?r1 = (False, r\<lparr>buttonState := BUTTON_RESET, buttonTimer := t0\<rparr>)"
    by (simp add: held_open)
  with first wait show ?thesis
    by (simp add: calls_append replicate_append_same)
qed

theorem C7_short_press_witness:
  "calls (buttonPressedHeld 5)
     [(10, False), (11, False), (13, False), (14, False), (15, True)]
     \<lparr>state = 0, pin1 = 2, pin2 = 3, buttonPin = 4, buttonState = BUTTON_RESET, buttonTimer = 0\<rparr>
   = ([False, False, False, False, False],
      \<lparr>state = 0, pin1 = 2, pin2 = 3, buttonPin = 4, buttonState = BUTTON_RESET,
       buttonTimer = 10\<rparr>)"
  using C7_short_press [of
      "\<lparr>state = 0, pin1 = 2, pin2 = 3, buttonPin = 4, buttonState = BUTTON_RESET,
        buttonTimer = 0\<rparr>" "[1, 3, 4]" 5 10 15]
  by (simp add: replicate_numeral)

subsection \<open>The elapsed-time test inside the two routines\<close>

text \<open>
  C10. Let a press be observed at true time \<open>T0\<close> and the next call be made at true
  time \<open>T1\<close>, both in milliseconds since the counter started, so that \<open>millis()\<close>
  gives \<open>T0 mod 2^32\<close> at the first call and \<open>T1 mod 2^32\<close> at the second. The delay
  argument is not negative and less than \<open>2^32\<close> ms pass between the two calls. Then
  the test \<open>millis() - buttonTimer > delay\<close> holds exactly when the true elapsed time
  exceeds the delay, however often the counter wrapped around, and both routines act on
  it: \<open>buttonPressedReleased\<close>, seeing the line closed and then open, returns false
  and then true exactly when the true elapsed time exceeds the delay;
  \<open>buttonPressedHeld\<close>, seeing the line closed twice, does the same.
\<close>

theorem C10_elapsed_wraparound:
  fixes d :: short
  assumes "0 \<le> sint d" and "T0 \<le> T1" and "T1 - T0 < 2 ^ 32"
  shows "(timer_expired (word_of_nat T1) (word_of_nat T0) d \<longleftrightarrow> sint d < int (T1 - T0))
    \<and> (buttonState r = BUTTON_RESET \<longrightarrow>
         calls (buttonPressedReleased d) [(word_of_nat T0, False), (word_of_nat T1, True)] r
         = ([False, sint d < int (T1 - T0)],
            r\<lparr>buttonState := (if sint d < int (T1 - T0) then BUTTON_RESET else BUTTON_PRESSED),
              buttonTimer := word_of_nat T0\<rparr>))
    \<and> (buttonState r \<noteq> BUTTON_PRESSED \<longrightarrow>
         calls (buttonPressedHeld d) [(word_of_nat T0, False), (word_of_nat T1, False)] r
         = ([False, sint d < int (T1 - T0)],
            r\<lparr>buttonState := (if sint d < int (T1 - T0) then BUTTON_RESET else BUTTON_PRESSED),
              buttonTimer := word_of_nat T0\<rparr>))"
proof -
  let ?t0 = "word_of_nat T0 :: ulong" and ?t1 = "word_of_nat T1 :: ulong"
  let ?r1 = "r\<lparr>buttonState := BUTTON_PRESSED, buttonTimer := ?t0\<rparr>"
  have "?t1 = ?t0 + word_of_nat (T1 - T0)"
    using assms(2) by (metis le_add_diff_inverse of_nat_add)
  then have test: "timer_expired ?t1 ?t0 d \<longleftrightarrow> sint d < int (T1 - T0)"
    using timer_expired_elapsed [OF assms(1,3)] by simp
  have released: "calls (buttonPressedReleased d) [(?t0, False), (?t1, True)] r
         = ([False, sint d < int (T1 - T0)],
            r\<lparr>buttonState := (if sint d < int (T1 - T0) then BUTTON_RESET else BUTTON_PRESSED),
              buttonTimer := ?t0\<rparr>)" if "buttonState r = BUTTON_RESET"
  proof -
    from that have first: "buttonPressedReleased d ?t0 False r = (False, ?r1)"
      by (rule released_first)
    show ?thesis
    proof (cases "sint d < int (T1 - T0)")
      case True
      with test have "buttonPressedReleased d ?t1 True ?r1
          = (True, ?r1\<lparr>buttonState := BUTTON_RESET\<rparr>)"
        by (intro released_fire) simp_all
      with first True show ?thesis by simp
    next
      case False
      with test have "buttonPressedReleased d ?t1 True ?r1 = (False, ?r1)"
        by (simp add: buttonPressedReleased_def)
      with first False show ?thesis by simp
    qed
  qed
  have held: "calls (buttonPressedHeld d) [(?t0, False), (?t1, False)] r
         = ([False, sint d < int (T1 - T0)],
            r\<lparr>buttonState := (if sint d < int (T1 - T0) then BUTTON_RESET else BUTTON_PRESSED),
              buttonTimer := ?t0\<rparr>)" if "buttonState r \<noteq> BUTTON_PRESSED"
  proof -
    from that have first: "buttonPressedHeld d ?t0 False r = (False, ?r1)"
      by (rule held_first)
    show ?thesis
    proof (cases "sint d < int (T1 - T0)")
      case True
      with test have "buttonPressedHeld d ?t1 False ?r1
          = (True, ?r1\<lparr>buttonState := BUTTON_RESET\<rparr>)"
        by (intro held_fire) simp_all
      with first True show ?thesis by simp
    next
      case False
      with test have "buttonPressedHeld d ?t1 False ?r1 = (False, ?r1)"
        by (intro held_wait) simp_all
      with first False show ?thesis by simp
    qed
  qed
  from test released held show ?thesis by blast
qed

theorem C10_elapsed_wraparound_witness:
  "(word_of_nat 4294967300 :: ulong) = 4
   \<and> timer_expired (word_of_nat 4294967300) (word_of_nat 4294967290) 5
   \<and> \<not> timer_expired (word_of_nat 4294967300) (word_of_nat 4294967295) 5
   \<and> calls (buttonPressedReleased 5)
       [(word_of_nat 4294967290, False), (word_of_nat 4294967300, True)]
       \<lparr>state = 0, pin1 = 2, pin2 = 3, buttonPin = 4, buttonState = BUTTON_RESET,
        buttonTimer = 0\<rparr>
     = ([False, True],
        \<lparr>state = 0, pin1 = 2, pin2 = 3, buttonPin = 4, buttonState = BUTTON_RESET,
         buttonTimer = 4294967290\<rparr>)
   \<and> calls (buttonPressedHeld 5)
       [(word_of_nat 4294967295, False), (word_of_nat 4294967300, False)]
       \<lparr>state = 0, pin1 = 2, pin2 = 3, buttonPin = 4, buttonState = BUTTON_RESET,
        buttonTimer = 0\<rparr>
     = ([False, False],
        \<lparr>state = 0, pin1 = 2, pin2 = 3, buttonPin = 4, buttonState = BUTTON_PRESSED,
         buttonTimer = 4294967295\<rparr>)"
  using C10_elapsed_wraparound [of 5 4294967290 4294967300
      "\<lparr>state = 0, pin1 = 2, pin2 = 3, buttonPin = 4, buttonState = BUTTON_RESET,
        buttonTimer = 0\<rparr>"]
    C10_elapsed_wraparound [of 5 4294967295 4294967300
      "\<lparr>state = 0, pin1 = 2, pin2 = 3, buttonPin = 4, buttonState = BUTTON_RESET,
        buttonTimer = 0\<rparr>"]
  by simp

end
